theory Spec2Isabelle
  imports Complex_Main
begin

section \<open>Text, lines and whitespace\<close>

text \<open>
  A Python \<open>str\<close> is a sequence of Unicode code points, and \<open>len\<close>, slicing and
  \<open>strip\<close> count code points. A character is therefore a natural number (its code
  point) and a string a list of them. The input of every function below is the text of
  the file as \<open>open(file_path, 'r', encoding='utf-8', errors='replace')\<close> decodes it:
  decoding never fails (a malformed byte becomes U+FFFD), so the decoded text is the
  starting point.
\<close>

type_synonym codepoint = nat
type_synonym pystr = "codepoint list"

abbreviation TAB :: codepoint where "TAB \<equiv> 9"
abbreviation NL :: codepoint where "NL \<equiv> 10"
abbreviation CR :: codepoint where "CR \<equiv> 13"
abbreviation SPACE :: codepoint where "SPACE \<equiv> 32"
abbreviation QUOTE :: codepoint where "QUOTE \<equiv> 34"

text \<open>A string literal of the script, as code points.\<close>

definition cp :: "string \<Rightarrow> pystr" where
  "cp s = map of_char s"

text \<open>
  The file is opened in text mode with the default \<open>newline=None\<close>: on reading,
  \<open>\r\n\<close> and a lone \<open>\r\<close> become \<open>\n\<close>.
\<close>

fun translate_newlines :: "pystr \<Rightarrow> pystr" where
  "translate_newlines [] = []"
| "translate_newlines [c] = [if c = CR then NL else c]"
| "translate_newlines (c # d # cs) =
     (if c = CR \<and> d = NL then NL # translate_newlines cs
      else if c = CR then NL # translate_newlines (d # cs)
      else c # translate_newlines (d # cs))"

text \<open>
  Iterating a text file yields its lines, each with its terminating \<open>\n\<close>; the last
  line has none when the text does not end in one. \<open>split_lines acc t\<close> carries the
  line read so far.
\<close>

fun split_lines :: "pystr \<Rightarrow> pystr \<Rightarrow> pystr list" where
  "split_lines acc [] = (if acc = [] then [] else [acc])"
| "split_lines acc (c # cs) =
     (if c = NL then (acc @ [c]) # split_lines [] cs else split_lines (acc @ [c]) cs)"

definition readlines :: "pystr \<Rightarrow> pystr list" where
  "readlines txt = split_lines [] (translate_newlines txt)"

text \<open>
  \<open>str.strip()\<close> removes leading and trailing whitespace, which for a \<open>str\<close> is the
  set of code points \<open>str.isspace\<close> accepts.
\<close>

definition isspace :: "codepoint \<Rightarrow> bool" where
  "isspace c \<longleftrightarrow>
     (9 \<le> c \<and> c \<le> 13) \<or> (28 \<le> c \<and> c \<le> 32) \<or> c = 133 \<or> c = 160 \<or> c = 5760 \<or>
     (8192 \<le> c \<and> c \<le> 8202) \<or> c = 8232 \<or> c = 8233 \<or> c = 8239 \<or> c = 8287 \<or> c = 12288"

definition strip :: "pystr \<Rightarrow> pystr" where
  "strip s = rev (dropWhile isspace (rev (dropWhile isspace s)))"

section \<open>The csv reader\<close>

text \<open>
  \<open>csv.DictReader(f, delimiter='\t')\<close> reads with the \<open>excel\<close> dialect and a tab as
  delimiter: quote character \<open>"\<close>, doubled quotes, no escape character, not strict, no
  skipping of initial spaces. The reader is the state machine of CPython's \<open>_csv.c\<close>;
  the three states that only an escape character reaches are left out. \<open>None\<close> as input
  character is the end-of-line marker the reader feeds itself after every line.
\<close>

datatype parser_state =
  START_RECORD | START_FIELD | IN_FIELD | IN_QUOTED_FIELD | QUOTE_IN_QUOTED_FIELD | EAT_CRNL

record reader =
  state :: parser_state
  field_buf :: pystr
  row_fields :: "pystr list"

datatype error = TypeError | AttributeError | StopIteration | CsvError

definition parse_reset :: reader where
  "parse_reset = \<lparr>state = START_RECORD, field_buf = [], row_fields = []\<rparr>"

definition parse_save_field :: "reader \<Rightarrow> reader" where
  "parse_save_field p = p\<lparr>row_fields := row_fields p @ [field_buf p], field_buf := []\<rparr>"

text \<open>
  A field holds at most \<open>csv.field_size_limit()\<close> characters, 131072 unless the program
  changes it, which this one does not: adding a character to a field that is already
  that long raises \<open>csv.Error\<close>.
\<close>

definition field_limit :: nat where
  "field_limit = 131072"

definition parse_add_char :: "reader \<Rightarrow> codepoint \<Rightarrow> error + reader" where
  "parse_add_char p c =
     (if field_limit \<le> length (field_buf p) then Inl CsvError
      else Inr (p\<lparr>field_buf := field_buf p @ [c]\<rparr>))"

text \<open>\<open>add_then p c s\<close>: add the character and, when that went well, go to state \<open>s\<close>.\<close>

definition add_then :: "reader \<Rightarrow> codepoint \<Rightarrow> parser_state \<Rightarrow> error + reader" where
  "add_then p c s =
     (case parse_add_char p c of
        Inl e \<Rightarrow> Inl e
      | Inr p' \<Rightarrow> Inr (p'\<lparr>state := s\<rparr>))"

text \<open>The case \<open>START_FIELD\<close>, which \<open>START_RECORD\<close> falls through to.\<close>

definition start_field :: "reader \<Rightarrow> codepoint option \<Rightarrow> error + reader" where
  "start_field p c =
     (case c of
        None \<Rightarrow> Inr ((parse_save_field p)\<lparr>state := START_RECORD\<rparr>)
      | Some ch \<Rightarrow>
          if ch = NL \<or> ch = CR then Inr ((parse_save_field p)\<lparr>state := EAT_CRNL\<rparr>)
          else if ch = QUOTE then Inr (p\<lparr>state := IN_QUOTED_FIELD\<rparr>)
          else if ch = TAB then Inr (parse_save_field p)
          else add_then p ch IN_FIELD)"

definition parse_process_char :: "reader \<Rightarrow> codepoint option \<Rightarrow> error + reader" where
  "parse_process_char p c =
     (case state p of
        START_RECORD \<Rightarrow>
          (case c of
             None \<Rightarrow> Inr p
           | Some ch \<Rightarrow>
               if ch = NL \<or> ch = CR then Inr (p\<lparr>state := EAT_CRNL\<rparr>)
               else start_field (p\<lparr>state := START_FIELD\<rparr>) c)
      | START_FIELD \<Rightarrow> start_field p c
      | IN_FIELD \<Rightarrow>
          (case c of
             None \<Rightarrow> Inr ((parse_save_field p)\<lparr>state := START_RECORD\<rparr>)
           | Some ch \<Rightarrow>
               if ch = NL \<or> ch = CR then Inr ((parse_save_field p)\<lparr>state := EAT_CRNL\<rparr>)
               else if ch = TAB then Inr ((parse_save_field p)\<lparr>state := START_FIELD\<rparr>)
               else parse_add_char p ch)
      | IN_QUOTED_FIELD \<Rightarrow>
          (case c of
             None \<Rightarrow> Inr p
           | Some ch \<Rightarrow>
               if ch = QUOTE then Inr (p\<lparr>state := QUOTE_IN_QUOTED_FIELD\<rparr>)
               else parse_add_char p ch)
      | QUOTE_IN_QUOTED_FIELD \<Rightarrow>
          (case c of
             None \<Rightarrow> Inr ((parse_save_field p)\<lparr>state := START_RECORD\<rparr>)
           | Some ch \<Rightarrow>
               if ch = QUOTE then add_then p ch IN_QUOTED_FIELD
               else if ch = TAB then Inr ((parse_save_field p)\<lparr>state := START_FIELD\<rparr>)
               else if ch = NL \<or> ch = CR then Inr ((parse_save_field p)\<lparr>state := EAT_CRNL\<rparr>)
               else add_then p ch IN_FIELD)
      | EAT_CRNL \<Rightarrow>
          (case c of
             None \<Rightarrow> Inr (p\<lparr>state := START_RECORD\<rparr>)
           | Some ch \<Rightarrow> if ch = NL \<or> ch = CR then Inr p else Inl CsvError))"

text \<open>One line: its characters, then the end-of-line marker.\<close>

fun parse_chars :: "reader \<Rightarrow> pystr \<Rightarrow> error + reader" where
  "parse_chars p [] = Inr p"
| "parse_chars p (c # cs) =
     (case parse_process_char p (Some c) of
        Inl e \<Rightarrow> Inl e
      | Inr p' \<Rightarrow> parse_chars p' cs)"

definition parse_line :: "reader \<Rightarrow> pystr \<Rightarrow> error + reader" where
  "parse_line p l =
     (case parse_chars p l of
        Inl e \<Rightarrow> Inl e
      | Inr p' \<Rightarrow> parse_process_char p' None)"

text \<open>
  The reader is an iterator: each \<open>next\<close> resets the parser and feeds it lines until the
  state is \<open>START_RECORD\<close> again, then returns the fields; at the end of the input a
  record that is still open (inside a quoted field) is returned as it stands. What the
  successive calls of \<open>next\<close> give is the list of rows, ended by \<open>StopIteration\<close>
  (\<open>None\<close>) or by an exception (\<open>Some e\<close>). A consumer that stops early never sees
  what comes later, the exception included.
\<close>

fun csv_reader :: "reader \<Rightarrow> pystr list \<Rightarrow> pystr list list \<times> error option" where
  "csv_reader p [] =
     (if field_buf p \<noteq> [] \<or> state p = IN_QUOTED_FIELD
      then ([row_fields (parse_save_field p)], None) else ([], None))"
| "csv_reader p (l # ls) =
     (case parse_line p l of
        Inl e \<Rightarrow> ([], Some e)
      | Inr p' \<Rightarrow>
          if state p' = START_RECORD
          then (case csv_reader parse_reset ls of (rs, e) \<Rightarrow> (row_fields p' # rs, e))
          else csv_reader p' ls)"

section \<open>DictReader\<close>

text \<open>
  A row of \<open>DictReader\<close> is a dict, in insertion order: the header's field names, each
  with a string or with \<open>None\<close> (\<open>restval\<close>, for a field the row is too short for), and
  last, when the row is longer than the header, the key \<open>None\<close> (\<open>restkey\<close>) with the
  list of the values left over. \<open>items\<close> holds the named entries and \<open>rest\<close> the list
  under the key \<open>None\<close>; that key is present exactly when \<open>rest\<close> is not empty.
\<close>

record dict_row =
  items :: "(pystr \<times> pystr option) list"
  rest :: "pystr list"

text \<open>\<open>d[k] = v\<close>: an existing key keeps its place.\<close>

fun dict_set :: "pystr \<Rightarrow> 'v \<Rightarrow> (pystr \<times> 'v) list \<Rightarrow> (pystr \<times> 'v) list" where
  "dict_set k v [] = [(k, v)]"
| "dict_set k v ((k', v') # d) = (if k' = k then (k, v) # d else (k', v') # dict_set k v d)"

fun dict_of :: "(pystr \<times> 'v) list \<Rightarrow> (pystr \<times> 'v) list \<Rightarrow> (pystr \<times> 'v) list" where
  "dict_of d [] = d"
| "dict_of d ((k, v) # kvs) = dict_of (dict_set k v d) kvs"

fun set_restval :: "pystr list \<Rightarrow> (pystr \<times> pystr option) list \<Rightarrow> (pystr \<times> pystr option) list" where
  "set_restval [] d = d"
| "set_restval (k # ks) d = set_restval ks (dict_set k None d)"

definition DictReader_row :: "pystr list \<Rightarrow> pystr list \<Rightarrow> dict_row" where
  "DictReader_row fieldnames row =
     (let d = dict_of [] (zip fieldnames (map Some row));
          lf = length fieldnames;
          lr = length row
      in if lf < lr then \<lparr>items = d, rest = drop lf row\<rparr>
         else if lf > lr then \<lparr>items = set_restval (drop lr fieldnames) d, rest = []\<rparr>
         else \<lparr>items = d, rest = []\<rparr>)"

text \<open>\<open>DictReader.__next__\<close> skips the rows that are \<open>[]\<close> (blank lines).\<close>

definition DictReader_rows :: "pystr list \<Rightarrow> pystr list list \<Rightarrow> dict_row list" where
  "DictReader_rows fieldnames rows =
     map (DictReader_row fieldnames) (filter (\<lambda>r. r \<noteq> []) rows)"

section \<open>Formatting\<close>

text \<open>\<open>str(n)\<close> of a natural number, and of an integer.\<close>

fun str_nat :: "nat \<Rightarrow> pystr" where
  "str_nat n = (if n < 10 then [48 + n] else str_nat (n div 10) @ [48 + n mod 10])"

declare str_nat.simps [simp del]

definition str_int :: "int \<Rightarrow> pystr" where
  "str_int i = (if i < 0 then 45 # str_nat (nat (- i)) else str_nat (nat i))"

text \<open>
  The format \<open>{count:,}\<close>: a comma before every group of three digits, counted from the
  right. \<open>commas_rev\<close> works on the digits in reverse.
\<close>

fun commas_rev :: "pystr \<Rightarrow> pystr" where
  "commas_rev (a # b # c # d # ds) = a # b # c # 44 # commas_rev (d # ds)"
| "commas_rev ds = ds"

definition format_thousands :: "nat \<Rightarrow> pystr" where
  "format_thousands n = rev (commas_rev (rev (str_nat n)))"

text \<open>
  The format \<open>{field:30s}\<close>: the string, then spaces up to the width; a longer string
  is left as it is.
\<close>

definition ljust :: "nat \<Rightarrow> pystr \<Rightarrow> pystr" where
  "ljust w s = s @ replicate (w - length s) SPACE"

text \<open>\<open>"\n" + "=" * 80\<close> and \<open>"=" * 80\<close>.\<close>

definition rule80 :: pystr where
  "rule80 = replicate 80 61"

section \<open>Floating point\<close>

text \<open>
  The fill percentage is a Python \<open>float\<close>, an IEEE 754 binary64 number. The floats of
  this program are not negative and lie far from overflow and underflow (they are 0 or
  between 0.01 and 100), so a float is a significand and an exponent and stands for
  \<open>mant * 2 ^ expo\<close>.
\<close>

record pyfloat =
  mant :: nat
  expo :: int

text \<open>\<open>int.bit_length()\<close>.\<close>

fun bit_length :: "nat \<Rightarrow> nat" where
  "bit_length n = (if n = 0 then 0 else Suc (bit_length (n div 2)))"

declare bit_length.simps [simp del]

text \<open>The integer nearest to \<open>p / q\<close>; of two that are equally near, the even one.\<close>

definition rdiv_even :: "nat \<Rightarrow> nat \<Rightarrow> nat" where
  "rdiv_even p q =
     (let k = p div q; r = p mod q
      in if 2 * r < q then k
         else if q < 2 * r then k + 1
         else if even k then k else k + 1)"

text \<open>The integer nearest to \<open>p / q * 2 ^ s\<close>, ties to even.\<close>

definition round_scaled :: "nat \<Rightarrow> nat \<Rightarrow> int \<Rightarrow> nat" where
  "round_scaled p q s =
     (if 0 \<le> s then rdiv_even (p * 2 ^ nat s) q else rdiv_even p (q * 2 ^ nat (- s)))"

text \<open>The exponent \<open>e\<close> with \<open>2 ^ e \<le> p / q < 2 ^ (e + 1)\<close>, for positive \<open>p\<close> and \<open>q\<close>.\<close>

definition binary_exponent :: "nat \<Rightarrow> nat \<Rightarrow> int" where
  "binary_exponent p q =
     (let d = int (bit_length p) - int (bit_length q)
      in if (if 0 \<le> d then p < q * 2 ^ nat d else p * 2 ^ nat (- d) < q) then d - 1 else d)"

text \<open>
  The float nearest to \<open>p / q\<close>: the quotient rounded to 53 significant bits, ties to
  even. This is the result of every arithmetic operation on floats, applied to the exact
  result.
\<close>

definition round_ratio :: "nat \<Rightarrow> nat \<Rightarrow> pyfloat" where
  "round_ratio p q =
     (if p = 0 then \<lparr>mant = 0, expo = 0\<rparr>
      else \<lparr>mant = round_scaled p q (52 - binary_exponent p q),
            expo = binary_exponent p q - 52\<rparr>)"

text \<open>
  \<open>a / b\<close> on two ints (with \<open>b\<close> not 0, which the program checks before it divides)
  and \<open>x * k\<close> on a float and an int.
\<close>

definition true_divide :: "nat \<Rightarrow> nat \<Rightarrow> pyfloat" where
  "true_divide a b = round_ratio a b"

definition float_mul_nat :: "pyfloat \<Rightarrow> nat \<Rightarrow> pyfloat" where
  "float_mul_nat x k =
     (if 0 \<le> expo x then round_ratio (mant x * k * 2 ^ nat (expo x)) 1
      else round_ratio (mant x * k) (2 ^ nat (- expo x)))"

text \<open>
  The format \<open>.1f\<close>: the decimal with one digit after the point that is nearest to
  the float's exact value, ties to even. \<open>tenths\<close> is that decimal counted in tenths.
\<close>

definition tenths :: "pyfloat \<Rightarrow> nat" where
  "tenths x = round_scaled (mant x * 10) 1 (expo x)"

definition format_1f :: "pyfloat \<Rightarrow> pystr" where
  "format_1f x = str_nat (tenths x div 10) @ [46] @ str_nat (tenths x mod 10)"

section \<open>analyze\_voter\_file\<close>

text \<open>
  \<open>field_stats\<close> is a \<open>defaultdict\<close> from field name to a dict with the keys
  \<open>'filled'\<close>, \<open>'empty'\<close> and \<open>'samples'\<close> (a set). \<open>empties\<close> is the entry
  \<open>'empty'\<close>.
\<close>

record field_stat =
  filled :: nat
  empties :: nat
  samples :: "pystr set"

type_synonym field_stats = "pystr \<rightharpoonup> field_stat"

definition default_stat :: field_stat where
  "default_stat = \<lparr>filled = 0, empties = 0, samples = {}\<rparr>"

text \<open>\<open>field_stats[field]\<close>: a missing key stands for the default entry.\<close>

definition get_stat :: "field_stats \<Rightarrow> pystr \<Rightarrow> field_stat" where
  "get_stat fs field = (case fs field of None \<Rightarrow> default_stat | Some st \<Rightarrow> st)"

text \<open>The test \<open>value and value.strip()\<close> on a string or \<open>None\<close>.\<close>

definition is_filled :: "pystr option \<Rightarrow> bool" where
  "is_filled v = (case v of None \<Rightarrow> False | Some s \<Rightarrow> s \<noteq> [] \<and> strip s \<noteq> [])"

text \<open>The body of the inner loop (lines 44 to 50) for one named entry of the row.\<close>

definition count_value :: "pystr \<Rightarrow> pystr option \<Rightarrow> field_stats \<Rightarrow> field_stats" where
  "count_value field v fs =
     (let st = get_stat fs field in
      case v of
        None \<Rightarrow> fs(field \<mapsto> st\<lparr>empties := empties st + 1\<rparr>)
      | Some s \<Rightarrow>
          if s \<noteq> [] \<and> strip s \<noteq> [] then
            (let st1 = st\<lparr>filled := filled st + 1\<rparr> in
             if card (samples st1) < 3
             then fs(field \<mapsto> st1\<lparr>samples := insert (take 50 (strip s)) (samples st1)\<rparr>)
             else fs(field \<mapsto> st1))
          else fs(field \<mapsto> st\<lparr>empties := empties st + 1\<rparr>))"

fun count_items :: "(pystr \<times> pystr option) list \<Rightarrow> field_stats \<Rightarrow> field_stats" where
  "count_items [] fs = fs"
| "count_items ((field, v) # kvs) fs = count_items kvs (count_value field v fs)"

text \<open>
  One row. The entry under the key \<open>None\<close> comes last; its value is a non-empty list,
  which is true as a condition and has no \<open>strip\<close>.
\<close>

definition process_row :: "dict_row \<Rightarrow> field_stats \<Rightarrow> error + field_stats" where
  "process_row row fs =
     (let fs' = count_items (items row) fs in
      if rest row \<noteq> [] then Inl AttributeError else Inr fs')"

definition sample_size :: nat where
  "sample_size = 100"

text \<open>
  The loop of lines 40 to 53: \<open>n\<close> is \<open>row_count\<close> before the row, \<open>ending\<close> is how the
  reader ends after its last row.
\<close>

fun sample_loop ::
  "nat \<Rightarrow> field_stats \<Rightarrow> dict_row list \<Rightarrow> error option \<Rightarrow> error + (nat \<times> field_stats)" where
  "sample_loop n fs [] ending = (case ending of None \<Rightarrow> Inr (n, fs) | Some e \<Rightarrow> Inl e)"
| "sample_loop n fs (row # rows) ending =
     (case process_row row fs of
        Inl e \<Rightarrow> Inl e
      | Inr fs' \<Rightarrow>
          if Suc n \<ge> sample_size then Inr (Suc n, fs')
          else sample_loop (Suc n) fs' rows ending)"

definition key_fields :: "pystr list" where
  "key_fields = map cp
     [''RegistrationNumber'', ''VoterID'', ''VoterTitle'',
      ''LastName'', ''FirstName'', ''MiddleName'', ''NameSuffix'', ''Gender'',
      ''ResidenceCity'', ''ResidenceZipCode'',
      ''HouseNumber'', ''PreDirection'', ''StreetName'', ''StreetSuffix'',
      ''PostDirection'', ''UnitAbbr'', ''UnitNumber'',
      ''MailAddress1'', ''MailAddress2'', ''MailAddress3'', ''MailAddress4'',
      ''MailCity'', ''MailState'', ''MailZip'',
      ''PhoneNumber'', ''EmailAddress'',
      ''RegistrationDate'', ''BirthDate'', ''BirthPlace'',
      ''PartyName'', ''PartyAbbr'', ''Language'',
      ''VBMProgramStatus'', ''StatusReason'',
      ''PrecinctID'', ''PrecinctPortion'', ''PrecinctName'']"

text \<open>
  Line 91: \<open>(stats['filled'] / row_count * 100) if row_count > 0 else 0\<close>. The \<open>0\<close>
  of the second branch is an int, which \<open>.1f\<close> formats as the float 0.0.
\<close>

definition filled_pct :: "nat \<Rightarrow> nat \<Rightarrow> pyfloat" where
  "filled_pct filled_count n =
     (if n > 0 then float_mul_nat (true_divide filled_count n) 100
      else \<lparr>mant = 0, expo = 0\<rparr>)"

text \<open>
  What the function prints, as far as it depends on the file's text: the number of
  fields, the numbered field names, the number of rows analysed, and for every key field
  that has an entry its filled count, the row count, the percentage as \<open>.1f\<close> prints
  it and its samples. The path, the file size and the fixed banner lines are not part of
  the model.
\<close>

datatype printed =
  Total_Fields nat
| Field_Name nat pystr
| Rows_Analyzed nat
| Key_Field pystr nat nat pystr "pystr set"

definition key_report :: "nat \<Rightarrow> field_stats \<Rightarrow> printed list" where
  "key_report n fs =
     concat (map (\<lambda>field. case fs field of
                            None \<Rightarrow> []
                          | Some st \<Rightarrow>
                              [Key_Field field (filled st) n
                                 (format_1f (filled_pct (filled st) n)) (samples st)])
                 key_fields)"

record sample_state =
  row_count :: nat
  field_stats :: field_stats

text \<open>
  The result: what was printed, and either the exception that ended the run or the
  statistics after the sampling pass. An empty file gives no header row, \<open>fieldnames\<close>
  is \<open>None\<close>, and \<open>len(fieldnames)\<close> raises \<open>TypeError\<close>.
\<close>

definition analyze_voter_file :: "pystr \<Rightarrow> printed list \<times> (error + sample_state)" where
  "analyze_voter_file txt =
     (case csv_reader parse_reset (readlines txt) of
        ([], None) \<Rightarrow> ([], Inl TypeError)
      | ([], Some e) \<Rightarrow> ([], Inl e)
      | (fieldnames # rows, ending) \<Rightarrow>
          (let head = Total_Fields (length fieldnames) #
                      map (\<lambda>(i, field). Field_Name i field)
                          (zip [1 ..< Suc (length fieldnames)] fieldnames)
           in case sample_loop 0 Map.empty (DictReader_rows fieldnames rows) ending of
                Inl e \<Rightarrow> (head, Inl e)
              | Inr (n, fs) \<Rightarrow>
                  (head @ [Rows_Analyzed n] @ key_report n fs,
                   Inr \<lparr>row_count = n, field_stats = fs\<rparr>)))"

section \<open>print\_sample\_record\<close>

definition format_field :: "pystr \<Rightarrow> pystr \<Rightarrow> pystr" where
  "format_field field v = ljust 30 field @ cp '': '' @ v"

fun print_items :: "(pystr \<times> pystr option) list \<Rightarrow> pystr list" where
  "print_items [] = []"
| "print_items ((field, v) # kvs) =
     (case v of
        None \<Rightarrow> print_items kvs
      | Some s \<Rightarrow>
          if s \<noteq> [] \<and> strip s \<noteq> [] then format_field field s # print_items kvs
          else print_items kvs)"

text \<open>
  The named entries are printed first; the entry under the key \<open>None\<close>, when the row
  has one, then raises as in the analysis.
\<close>

definition print_row :: "dict_row \<Rightarrow> pystr list \<times> error option" where
  "print_row row = (print_items (items row), if rest row \<noteq> [] then Some AttributeError else None)"

fun find_record :: "nat \<Rightarrow> int \<Rightarrow> dict_row list \<Rightarrow> error option \<Rightarrow> pystr list \<times> error option" where
  "find_record i record_num [] ending = ([], ending)"
| "find_record i record_num (row # rows) ending =
     (if int i = record_num then print_row row
      else find_record (Suc i) record_num rows ending)"

definition record_banner :: "int \<Rightarrow> pystr list" where
  "record_banner record_num =
     [NL # rule80, cp ''SAMPLE RECORD #'' @ str_int record_num, rule80]"

text \<open>
  The result: the arguments of the calls of \<open>print\<close>, in order, and the exception that
  ended the run, if any. With an empty file the reader has no field names and no rows,
  and the loop ends at once.
\<close>

definition print_sample_record :: "pystr \<Rightarrow> int \<Rightarrow> pystr list \<times> error option" where
  "print_sample_record txt record_num =
     (case csv_reader parse_reset (readlines txt) of
        ([], ending) \<Rightarrow> (record_banner record_num, ending)
      | (fieldnames # rows, ending) \<Rightarrow>
          (case find_record 1 record_num (DictReader_rows fieldnames rows) ending of
             (out, e) \<Rightarrow> (record_banner record_num @ out, e)))"

section \<open>count\_total\_rows\<close>

definition count_banner :: "pystr list" where
  "count_banner =
     [NL # rule80, cp ''COUNTING TOTAL ROWS (this may take a minute)...'', rule80]"

text \<open>
  \<open>next(f)\<close> skips the first line and raises \<open>StopIteration\<close> when there is none; the
  remaining lines are counted.
\<close>

definition count_total_rows :: "pystr \<Rightarrow> pystr list \<times> (error + nat)" where
  "count_total_rows txt =
     (case readlines txt of
        [] \<Rightarrow> (count_banner, Inl StopIteration)
      | header # ls \<Rightarrow>
          (count_banner @ [cp ''Total voter records: '' @ format_thousands (length ls)],
           Inr (length ls)))"

section \<open>The header, the data rows and the numbers printed\<close>

text \<open>
  The field names are the first row the reader yields (none for an empty file). The data
  rows are the rows \<open>DictReader\<close> yields when it is read to the end: the records after
  the header, without the blank ones. A record is usually one line, but a quoted field
  may run over several lines.
\<close>

definition fieldnames_of :: "pystr \<Rightarrow> pystr list option" where
  "fieldnames_of txt =
     (case fst (csv_reader parse_reset (readlines txt)) of
        [] \<Rightarrow> None
      | fieldnames # rows \<Rightarrow> Some fieldnames)"

definition data_rows :: "pystr \<Rightarrow> dict_row list" where
  "data_rows txt =
     (case fst (csv_reader parse_reset (readlines txt)) of
        [] \<Rightarrow> []
      | fieldnames # rows \<Rightarrow> DictReader_rows fieldnames rows)"

text \<open>
  A header line: the names with a tab between them (\<open>'\t'.join(names)\<close>).
\<close>

fun join_tab :: "pystr list \<Rightarrow> pystr" where
  "join_tab [] = []"
| "join_tab [x] = x"
| "join_tab (x # y # ys) = x @ [TAB] @ join_tab (y # ys)"

text \<open>The number a string of decimal digits stands for.\<close>

definition nat_of_digits :: "pystr \<Rightarrow> nat" where
  "nat_of_digits ds = foldl (\<lambda>a d. 10 * a + (d - 48)) 0 ds"


section \<open>The scenario of the specification\<close>

text \<open>The header \<open>A\tB\tC\<close> and the rows \<open>1\t\t3\<close>, \<open>4\t5\t\<close> and \<open>7\t8\t9\<close>.\<close>

definition example_file :: pystr where
  "example_file =
     cp ''A'' @ [TAB] @ cp ''B'' @ [TAB] @ cp ''C'' @ [NL] @
     cp ''1'' @ [TAB, TAB] @ cp ''3'' @ [NL] @
     cp ''4'' @ [TAB] @ cp ''5'' @ [TAB, NL] @
     cp ''7'' @ [TAB] @ cp ''8'' @ [TAB] @ cp ''9'' @ [NL]"




section \<open>Notions used in the proofs\<close>

text \<open>What one entry does to the statistics of its field.\<close>

definition bump :: "pystr option \<Rightarrow> field_stat \<Rightarrow> field_stat" where
  "bump v st =
     (if is_filled v then
        (if card (samples st) < 3
         then st\<lparr>filled := filled st + 1, samples := insert (take 50 (strip (the v))) (samples st)\<rparr>
         else st\<lparr>filled := filled st + 1\<rparr>)
      else st\<lparr>empties := empties st + 1\<rparr>)"

text \<open>The number of times a field has been counted.\<close>

definition total :: "field_stats \<Rightarrow> pystr \<Rightarrow> nat" where
  "total fs k = filled (get_stat fs k) + empties (get_stat fs k)"

text \<open>
  The invariant of the sample sets: finite, at most three entries, each the first 50
  characters of a stripped value among those \<open>G\<close> allows for the field.
\<close>

definition samples_ok :: "(pystr \<Rightarrow> pystr set) \<Rightarrow> field_stats \<Rightarrow> bool" where
  "samples_ok G fs \<longleftrightarrow>
     (\<forall>k. finite (samples (get_stat fs k)) \<and> card (samples (get_stat fs k)) \<le> 3 \<and>
          samples (get_stat fs k) \<subseteq> (\<lambda>v. take 50 (strip v)) ` G k)"

text \<open>
  A well-formed field name: no tab and no line end in it, and no quote character at its
  start.
\<close>

definition name_ok :: "pystr \<Rightarrow> bool" where
  "name_ok n \<longleftrightarrow> TAB \<notin> set n \<and> NL \<notin> set n \<and> CR \<notin> set n \<and> (n \<noteq> [] \<longrightarrow> hd n \<noteq> QUOTE)"


section \<open>The reader\<close>

lemmas parse_defs =
  parse_process_char_def start_field_def add_then_def parse_save_field_def parse_add_char_def
  field_limit_def

lemma parse_chars_append:
  "parse_chars p (xs @ ys) = (case parse_chars p xs of Inl e \<Rightarrow> Inl e | Inr p' \<Rightarrow> parse_chars p' ys)"
  by (induction xs arbitrary: p) (auto split: sum.splits)

lemma csv_reader_record:
  "parse_line p l = Inr p' \<Longrightarrow> state p' = START_RECORD \<Longrightarrow>
   csv_reader p (l # ls) =
     (row_fields p' # fst (csv_reader parse_reset ls), snd (csv_reader parse_reset ls))"
  by (simp split: prod.splits)




section \<open>Rows as dicts\<close>

lemma dict_set_keys:
  "map fst (dict_set k v d) = (if k \<in> set (map fst d) then map fst d else map fst d @ [k])"
proof (induction d)
  case Nil
  then show ?case by simp
next
  case (Cons kv d)
  obtain k' v' where kv: "kv = (k', v')" by (cases kv)
  show ?case
  proof (cases "k' = k")
    case True
    then show ?thesis by (simp add: kv)
  next
    case False
    with Cons.IH show ?thesis by (simp add: kv)
  qed
qed

lemma dict_set_distinct: "distinct (map fst d) \<Longrightarrow> distinct (map fst (dict_set k v d))"
  by (simp add: dict_set_keys del: set_map)

lemma dict_set_set_keys: "set (map fst (dict_set k v d)) = insert k (set (map fst d))"
  by (auto simp: dict_set_keys simp del: set_map)

lemma dict_set_map_of: "map_of (dict_set k v d) = (map_of d)(k \<mapsto> v)"
  by (induction d) (auto simp: fun_eq_iff)

lemma dict_of_distinct: "distinct (map fst d) \<Longrightarrow> distinct (map fst (dict_of d kvs))"
  by (induction kvs arbitrary: d) (auto simp: dict_set_distinct)

lemma dict_of_set_keys: "set (map fst (dict_of d kvs)) = set (map fst d) \<union> set (map fst kvs)"
proof (induction kvs arbitrary: d)
  case Nil
  then show ?case by simp
next
  case (Cons kv kvs)
  obtain k v where kv: "kv = (k, v)" by (cases kv)
  have "set (map fst (dict_of (dict_set k v d) kvs)) = insert k (set (map fst d)) \<union> set (map fst kvs)"
    using Cons.IH[of "dict_set k v d"] by (simp only: dict_set_set_keys)
  then show ?case by (simp add: kv del: set_map)
qed

lemma set_restval_distinct: "distinct (map fst d) \<Longrightarrow> distinct (map fst (set_restval ks d))"
  by (induction ks arbitrary: d) (auto simp: dict_set_distinct)

lemma set_restval_set_keys: "set (map fst (set_restval ks d)) = set (map fst d) \<union> set ks"
proof (induction ks arbitrary: d)
  case Nil
  then show ?case by simp
next
  case (Cons k ks)
  have "set (map fst (set_restval ks (dict_set k None d))) = insert k (set (map fst d)) \<union> set ks"
    using Cons.IH[of "dict_set k None d"] by (simp only: dict_set_set_keys)
  then show ?case by (simp del: set_map)
qed

lemma set_restval_map_of:
  "map_of (set_restval ks d) k = (if k \<in> set ks then Some None else map_of d k)"
  by (induction ks arbitrary: d) (auto simp: dict_set_map_of)

lemma zip_keys: "map fst (zip xs (map f ys)) = take (length ys) xs"
  by (simp add: map_fst_zip_take min_def)

lemma DictReader_row_distinct: "distinct (map fst (items (DictReader_row fns r)))"
  by (simp add: DictReader_row_def Let_def dict_of_distinct set_restval_distinct)

lemma DictReader_row_keys: "set (map fst (items (DictReader_row fns r))) = set fns"
proof -
  have "set (take (length r) fns) \<union> set (drop (length r) fns) = set fns"
    by (metis append_take_drop_id set_append)
  then show ?thesis
    by (simp add: DictReader_row_def Let_def dict_of_set_keys set_restval_set_keys zip_keys
       del: set_map)
qed

lemma DictReader_row_restval:
  "k \<in> set (drop (length r) fns) \<Longrightarrow> map_of (items (DictReader_row fns r)) k = Some None"
proof -
  assume k: "k \<in> set (drop (length r) fns)"
  then have "length r < length fns" by (cases "length r < length fns") auto
  with k show ?thesis by (simp add: DictReader_row_def Let_def set_restval_map_of)
qed

lemma DictReader_row_rest: "length r \<le> length fns \<Longrightarrow> rest (DictReader_row fns r) = []"
  by (simp add: DictReader_row_def Let_def)

lemma count_value_bump: "count_value field v fs = fs(field \<mapsto> bump v (get_stat fs field))"
  by (cases v) (auto simp: count_value_def bump_def is_filled_def Let_def)

lemma get_stat_count_value:
  "get_stat (count_value field v fs) k = (if k = field then bump v (get_stat fs k) else get_stat fs k)"
  by (simp add: count_value_bump get_stat_def)

lemma count_items_get_stat:
  "distinct (map fst kvs) \<Longrightarrow>
   get_stat (count_items kvs fs) k =
     (case map_of kvs k of None \<Rightarrow> get_stat fs k | Some v \<Rightarrow> bump v (get_stat fs k))"
proof (induction kvs arbitrary: fs)
  case Nil
  then show ?case by simp
next
  case (Cons kv kvs)
  obtain f v where kv: "kv = (f, v)" by (cases kv)
  from Cons.prems kv have d: "distinct (map fst kvs)" and nf: "f \<notin> fst ` set kvs" by auto
  from nf have mf: "map_of kvs f = None" by (simp add: map_of_eq_None_iff)
  show ?case
    using Cons.IH[OF d, of "count_value f v fs"] mf
    by (auto simp: kv get_stat_count_value split: option.splits)
qed

lemma bump_total: "filled (bump v st) + empties (bump v st) = Suc (filled st + empties st)"
  by (simp add: bump_def)

lemma bump_None: "bump None st = st\<lparr>empties := empties st + 1\<rparr>"
  by (simp add: bump_def is_filled_def)

section \<open>The sampling loop\<close>

lemma process_row_Inr: "process_row row fs = Inr fs' \<Longrightarrow> fs' = count_items (items row) fs \<and> rest row = []"
  by (auto simp: process_row_def Let_def split: if_splits)

lemma sample_loop_count:
  "sample_loop n fs rows ending = Inr (n', fs') \<Longrightarrow> n < sample_size \<Longrightarrow>
   n' = min sample_size (n + length rows)"
proof (induction rows arbitrary: n fs)
  case Nil
  then show ?case by (auto split: option.splits)
next
  case (Cons row rows)
  from Cons.prems(1) obtain fs1 where fs1: "process_row row fs = Inr fs1"
    by (auto split: sum.splits)
  show ?case
  proof (cases "Suc n \<ge> sample_size")
    case True
    with Cons.prems fs1 show ?thesis by auto
  next
    case False
    with Cons.prems fs1 have "sample_loop (Suc n) fs1 rows ending = Inr (n', fs')" by simp
    with Cons.IH[of "Suc n" fs1] False show ?thesis by simp
  qed
qed

lemma count_items_total:
  assumes "distinct (map fst kvs)" "k \<in> set (map fst kvs)"
  shows "total (count_items kvs fs) k = Suc (total fs k)"
proof -
  from assms(2) obtain v where "map_of kvs k = Some v"
    by (metis map_of_eq_None_iff not_None_eq set_map)
  then show ?thesis
    by (simp add: total_def count_items_get_stat[OF assms(1)] bump_total)
qed

lemma sample_loop_total:
  "sample_loop n fs rows ending = Inr (n', fs') \<Longrightarrow>
   \<forall>row\<in>set rows. distinct (map fst (items row)) \<and> k \<in> set (map fst (items row)) \<Longrightarrow>
   total fs k = n \<Longrightarrow> total fs' k = n'"
proof (induction rows arbitrary: n fs)
  case Nil
  then show ?case by (auto split: option.splits)
next
  case (Cons row rows)
  from Cons.prems(1) obtain fs1 where fs1: "process_row row fs = Inr fs1"
    by (auto split: sum.splits)
  then have "fs1 = count_items (items row) fs" by (simp add: process_row_Inr)
  with Cons.prems have t: "total fs1 k = Suc n" by (simp add: count_items_total del: set_map)
  show ?case
  proof (cases "Suc n \<ge> sample_size")
    case True
    with Cons.prems fs1 t show ?thesis by auto
  next
    case False
    with Cons.prems fs1 have "sample_loop (Suc n) fs1 rows ending = Inr (n', fs')" by simp
    with Cons.IH[of "Suc n" fs1] Cons.prems(2) t show ?thesis by simp
  qed
qed

lemma total_empty: "total Map.empty k = 0"
  by (simp add: total_def get_stat_def default_stat_def)

lemma analyze_Inr:
  assumes "snd (analyze_voter_file txt) = Inr s"
  obtains fns rows ending where
    "csv_reader parse_reset (readlines txt) = (fns # rows, ending)"
    "sample_loop 0 Map.empty (DictReader_rows fns rows) ending = Inr (row_count s, field_stats s)"
proof -
  obtain rs ending where c: "csv_reader parse_reset (readlines txt) = (rs, ending)"
    by (cases "csv_reader parse_reset (readlines txt)")
  from assms c obtain fns rows where rs: "rs = fns # rows"
    by (cases rs) (auto simp: analyze_voter_file_def split: option.splits)
  from assms c rs
  have "sample_loop 0 Map.empty (DictReader_rows fns rows) ending = Inr (row_count s, field_stats s)"
    by (auto simp: analyze_voter_file_def Let_def split: sum.splits)
  with c rs that show thesis by simp
qed

lemma bump_samples:
  assumes "finite (samples st)" "card (samples st) \<le> 3"
    "samples st \<subseteq> (\<lambda>v. take 50 (strip v)) ` V"
    "\<And>s. v = Some s \<Longrightarrow> s \<in> V"
  shows "finite (samples (bump v st)) \<and> card (samples (bump v st)) \<le> 3 \<and>
         samples (bump v st) \<subseteq> (\<lambda>v. take 50 (strip v)) ` V"
proof (cases "is_filled v \<and> card (samples st) < 3")
  case True
  then obtain s where s: "v = Some s" by (cases v) (auto simp: is_filled_def)
  have b: "samples (bump v st) = insert (take 50 (strip s)) (samples st)"
    using True s by (simp add: bump_def)
  have "card (insert (take 50 (strip s)) (samples st)) \<le> Suc (card (samples st))"
    by (rule card_insert_le_m1) simp_all
  with True assms s show ?thesis unfolding b by auto
next
  case False
  then have "samples (bump v st) = samples st" by (auto simp: bump_def)
  with assms show ?thesis by simp
qed

lemma count_items_samples_ok:
  assumes "distinct (map fst kvs)" "samples_ok G fs"
    "\<And>k s. (k, Some s) \<in> set kvs \<Longrightarrow> s \<in> G k"
  shows "samples_ok G (count_items kvs fs)"
  unfolding samples_ok_def
proof
  fix k
  let ?st = "get_stat fs k"
  from assms(2) have st: "finite (samples ?st)" "card (samples ?st) \<le> 3"
    "samples ?st \<subseteq> (\<lambda>v. take 50 (strip v)) ` G k"
    by (auto simp: samples_ok_def)
  show "finite (samples (get_stat (count_items kvs fs) k)) \<and>
        card (samples (get_stat (count_items kvs fs) k)) \<le> 3 \<and>
        samples (get_stat (count_items kvs fs) k) \<subseteq> (\<lambda>v. take 50 (strip v)) ` G k"
  proof (cases "map_of kvs k")
    case None
    with st show ?thesis by (simp add: count_items_get_stat[OF assms(1)])
  next
    case (Some v)
    then have "(k, v) \<in> set kvs" by (rule map_of_SomeD)
    then have "\<And>s. v = Some s \<Longrightarrow> s \<in> G k" using assms(3) by simp
    from bump_samples[OF st this] Some show ?thesis
      by (simp add: count_items_get_stat[OF assms(1)])
  qed
qed

lemma sample_loop_samples_ok:
  "sample_loop n fs rows ending = Inr (n', fs') \<Longrightarrow> samples_ok G fs \<Longrightarrow>
   \<forall>row\<in>set rows. distinct (map fst (items row)) \<Longrightarrow> n < sample_size \<Longrightarrow>
   (\<And>row k s. row \<in> set (take (sample_size - n) rows) \<Longrightarrow> (k, Some s) \<in> set (items row) \<Longrightarrow> s \<in> G k) \<Longrightarrow>
   samples_ok G fs'"
proof (induction rows arbitrary: n fs)
  case Nil
  then show ?case by (auto split: option.splits)
next
  case (Cons row rows)
  from Cons.prems(1) obtain fs1 where fs1: "process_row row fs = Inr fs1"
    by (auto split: sum.splits)
  then have e: "fs1 = count_items (items row) fs" by (simp add: process_row_Inr)
  from Cons.prems(4) have "sample_size - n = Suc (sample_size - Suc n)" by simp
  then have t: "take (sample_size - n) (row # rows) = row # take (sample_size - Suc n) rows"
    by (simp only: take_Suc_Cons)
  then have "\<And>k s. (k, Some s) \<in> set (items row) \<Longrightarrow> s \<in> G k" using Cons.prems(5) by auto
  with count_items_samples_ok[of "items row" G fs] Cons.prems(2,3) e have ok1: "samples_ok G fs1"
    by simp
  show ?case
  proof (cases "Suc n \<ge> sample_size")
    case True
    with Cons.prems(1) fs1 have "fs' = fs1" by auto
    with ok1 show ?thesis by simp
  next
    case False
    from False Cons.prems(1) fs1 have l: "sample_loop (Suc n) fs1 rows ending = Inr (n', fs')"
      by simp
    have sub: "\<And>row' k s. row' \<in> set (take (sample_size - Suc n) rows) \<Longrightarrow>
        (k, Some s) \<in> set (items row') \<Longrightarrow> s \<in> G k"
      using Cons.prems(5) t by auto
    from Cons.IH[OF l ok1 _ _ sub] Cons.prems(3) False show ?thesis by simp
  qed
qed

lemma samples_ok_empty: "samples_ok G Map.empty"
  by (simp add: samples_ok_def get_stat_def default_stat_def)

section \<open>The lines of a text\<close>

lemma translate_newlines_plain:
  "CR \<notin> set l \<Longrightarrow> translate_newlines (l @ NL # t) = l @ NL # translate_newlines t"
proof (induction l)
  case Nil
  then show ?case by (cases t) auto
next
  case (Cons c cs)
  then show ?case by (cases cs) auto
qed

lemma translate_newlines_crnl:
  "CR \<notin> set l \<Longrightarrow> translate_newlines (l @ CR # NL # t) = l @ NL # translate_newlines t"
proof (induction l)
  case Nil
  then show ?case by simp
next
  case (Cons c cs)
  then show ?case by (cases cs) auto
qed

lemma translate_newlines_id: "CR \<notin> set l \<Longrightarrow> translate_newlines l = l"
  by (induction l rule: translate_newlines.induct) auto

lemma split_lines_line:
  "NL \<notin> set l \<Longrightarrow> split_lines acc (l @ NL # t) = (acc @ l @ [NL]) # split_lines [] t"
  by (induction l arbitrary: acc) auto

lemma split_lines_last:
  "NL \<notin> set l \<Longrightarrow> split_lines acc l = (if acc @ l = [] then [] else [acc @ l])"
  by (induction l arbitrary: acc) auto

lemma readlines_line:
  assumes "eol = [NL] \<or> eol = [CR, NL]" "NL \<notin> set l" "CR \<notin> set l"
  shows "readlines (l @ eol @ t) = (l @ [NL]) # readlines t"
  using assms
  by (auto simp: readlines_def translate_newlines_plain translate_newlines_crnl split_lines_line)

lemma readlines_last:
  "NL \<notin> set l \<Longrightarrow> CR \<notin> set l \<Longrightarrow> readlines l = (if l = [] then [] else [l])"
  by (simp add: readlines_def translate_newlines_id split_lines_last)

lemma readlines_lines:
  assumes "eol = [NL] \<or> eol = [CR, NL]" "\<forall>l\<in>set ls. NL \<notin> set l \<and> CR \<notin> set l"
  shows "readlines (concat (map (\<lambda>l. l @ eol) ls) @ t) = map (\<lambda>l. l @ [NL]) ls @ readlines t"
  using assms(2)
proof (induction ls)
  case Nil
  then show ?case by simp
next
  case (Cons l ls)
  then show ?case using readlines_line[OF assms(1), of l "concat (map (\<lambda>l. l @ eol) ls) @ t"]
    by simp
qed

section \<open>The header line\<close>

lemma parse_line_append:
  "parse_line p (a @ b) = (case parse_chars p a of Inl e \<Rightarrow> Inl e | Inr p' \<Rightarrow> parse_line p' b)"
  by (simp add: parse_line_def parse_chars_append split: sum.splits)

lemma parse_chars_in_field:
  "TAB \<notin> set cs \<Longrightarrow> NL \<notin> set cs \<Longrightarrow> CR \<notin> set cs \<Longrightarrow>
   length b + length cs \<le> field_limit \<Longrightarrow>
   parse_chars \<lparr>state = IN_FIELD, field_buf = b, row_fields = fs\<rparr> cs =
     Inr \<lparr>state = IN_FIELD, field_buf = b @ cs, row_fields = fs\<rparr>"
  by (induction cs arbitrary: b)
     (auto simp: parse_process_char_def parse_add_char_def)

lemma parse_chars_name:
  assumes "name_ok n" "n \<noteq> []" "length n \<le> field_limit"
  shows "parse_chars \<lparr>state = START_FIELD, field_buf = [], row_fields = fs\<rparr> n =
     Inr \<lparr>state = IN_FIELD, field_buf = n, row_fields = fs\<rparr>"
proof -
  from assms obtain c cs where n: "n = c # cs" by (cases n) auto
  with assms have c: "c \<noteq> TAB" "c \<noteq> NL" "c \<noteq> CR" "c \<noteq> QUOTE"
    and cs: "TAB \<notin> set cs" "NL \<notin> set cs" "CR \<notin> set cs"
    and len: "length [c] + length cs \<le> field_limit"
    by (auto simp: name_ok_def)
  from len have "\<not> field_limit \<le> 0" by simp
  then have "parse_process_char \<lparr>state = START_FIELD, field_buf = [], row_fields = fs\<rparr> (Some c) =
      Inr \<lparr>state = IN_FIELD, field_buf = [c], row_fields = fs\<rparr>"
    using c by (simp add: parse_process_char_def start_field_def add_then_def parse_add_char_def)
  then show ?thesis using parse_chars_in_field[OF cs len, of fs] by (simp add: n)
qed

lemma parse_chars_name_tab:
  assumes "name_ok n" "length n \<le> field_limit"
  shows "parse_chars \<lparr>state = START_FIELD, field_buf = [], row_fields = fs\<rparr> (n @ [TAB] @ t) =
     parse_chars \<lparr>state = START_FIELD, field_buf = [], row_fields = fs @ [n]\<rparr> t"
proof (cases "n = []")
  case True
  then show ?thesis
    by (simp add: parse_process_char_def start_field_def parse_save_field_def)
next
  case False
  with parse_chars_name[OF assms(1) False assms(2), of fs] show ?thesis
    by (simp add: parse_chars_append parse_process_char_def parse_save_field_def)
qed

lemma parse_line_name:
  assumes "name_ok n" "e = [] \<or> e = [NL]" "length n \<le> field_limit"
  shows "parse_line \<lparr>state = START_FIELD, field_buf = [], row_fields = fs\<rparr> (n @ e) =
     Inr \<lparr>state = START_RECORD, field_buf = [], row_fields = fs @ [n]\<rparr>"
proof (cases "n = []")
  case True
  with assms(2) show ?thesis
    by (auto simp: parse_line_def parse_process_char_def start_field_def parse_save_field_def)
next
  case False
  with parse_chars_name[OF assms(1) False assms(3), of fs] assms(2) show ?thesis
    by (auto simp: parse_line_append)
       (auto simp: parse_line_def parse_process_char_def parse_save_field_def)
qed

lemma parse_line_names:
  assumes "e = [] \<or> e = [NL]"
  shows "names \<noteq> [] \<Longrightarrow> \<forall>n\<in>set names. name_ok n \<and> length n \<le> field_limit \<Longrightarrow>
   parse_line \<lparr>state = START_FIELD, field_buf = [], row_fields = fs\<rparr> (join_tab names @ e) =
     Inr \<lparr>state = START_RECORD, field_buf = [], row_fields = fs @ names\<rparr>"
proof (induction names arbitrary: fs rule: join_tab.induct[case_names Nil One More])
  case Nil
  then show ?case by simp
next
  case (One x)
  then show ?case using parse_line_name[OF _ assms, of x fs] by simp
next
  case (More x y ys)
  from More.prems have x: "name_ok x" "length x \<le> field_limit"
    and r: "\<forall>n\<in>set (y # ys). name_ok n \<and> length n \<le> field_limit" by auto
  have "parse_line \<lparr>state = START_FIELD, field_buf = [], row_fields = fs\<rparr>
          ((x @ [TAB]) @ (join_tab (y # ys) @ e)) =
        parse_line \<lparr>state = START_FIELD, field_buf = [], row_fields = fs @ [x]\<rparr>
          (join_tab (y # ys) @ e)"
    using parse_chars_name_tab[OF x, of fs "[]"]
    by (subst parse_line_append) simp
  with More.IH[of "fs @ [x]"] r show ?case by simp
qed

lemma parse_line_start_record:
  "c \<noteq> NL \<Longrightarrow> c \<noteq> CR \<Longrightarrow>
   parse_line parse_reset (c # cs) =
     parse_line \<lparr>state = START_FIELD, field_buf = [], row_fields = []\<rparr> (c # cs)"
  by (simp add: parse_line_def parse_reset_def parse_process_char_def)

lemma join_chars: "set (join_tab names) \<subseteq> insert TAB (\<Union>(set ` set names))"
  by (induction names rule: join_tab.induct) auto

lemma join_empty: "join_tab names = [] \<longleftrightarrow> names = [] \<or> names = [[]]"
  by (induction names rule: join_tab.induct) auto

lemma join_no_newline:
  assumes "\<forall>n\<in>set names. name_ok n \<and> length n \<le> field_limit"
  shows "NL \<notin> set (join_tab names) \<and> CR \<notin> set (join_tab names)"
  using join_chars[of names] assms by (auto simp: name_ok_def)

lemma parse_header_line:
  assumes "names \<noteq> [[]]" "\<forall>n\<in>set names. name_ok n \<and> length n \<le> field_limit"
    "e = [] \<or> e = [NL]" "join_tab names @ e \<noteq> []"
  shows "parse_line parse_reset (join_tab names @ e) =
           Inr \<lparr>state = START_RECORD, field_buf = [], row_fields = names\<rparr>"
proof (cases "names = []")
  case True
  with assms(3,4) show ?thesis
    by (auto simp: parse_line_def parse_reset_def parse_process_char_def)
next
  case False
  with assms(1) have "join_tab names \<noteq> []" by (simp add: join_empty)
  then obtain c cs where j: "join_tab names = c # cs" by (cases "join_tab names") auto
  with join_no_newline[OF assms(2)] have c: "c \<noteq> NL" "c \<noteq> CR" by auto
  have "parse_line parse_reset (join_tab names @ e) =
        parse_line \<lparr>state = START_FIELD, field_buf = [], row_fields = []\<rparr> (join_tab names @ e)"
    using parse_line_start_record[OF c, of "cs @ e"] by (simp add: j)
  with parse_line_names[OF assms(3) False assms(2), of "[]"] show ?thesis by simp
qed



lemma analyze_head:
  assumes "fst (csv_reader parse_reset (readlines txt)) = fns # rows"
  shows "\<exists>out. fst (analyze_voter_file txt) = Total_Fields (length fns) # out"
proof -
  obtain ending where "csv_reader parse_reset (readlines txt) = (fns # rows, ending)"
    using assms by (cases "csv_reader parse_reset (readlines txt)") auto
  then show ?thesis
    by (auto simp: analyze_voter_file_def Let_def split: sum.splits)
qed

section \<open>Finding the record\<close>





section \<open>Formatting numbers\<close>

lemma str_nat_digit: "n < 10 \<Longrightarrow> str_nat n = [48 + n]"
  by (subst str_nat.simps) simp

lemma str_nat_value: "nat_of_digits (str_nat n) = n"
proof (induction n rule: str_nat.induct)
  case (1 n)
  show ?case
  proof (cases "n < 10")
    case True
    then show ?thesis by (simp add: str_nat_digit nat_of_digits_def)
  next
    case False
    then have "str_nat n = str_nat (n div 10) @ [48 + n mod 10]" by (subst str_nat.simps) simp
    with 1 False show ?thesis by (simp add: nat_of_digits_def)
  qed
qed

lemma str_nat_no_comma: "44 \<notin> set (str_nat n)"
proof (induction n rule: str_nat.induct)
  case (1 n)
  show ?case
  proof (cases "n < 10")
    case True
    then show ?thesis by (simp add: str_nat_digit)
  next
    case False
    then have "str_nat n = str_nat (n div 10) @ [48 + n mod 10]" by (subst str_nat.simps) simp
    with 1 False show ?thesis by simp
  qed
qed

lemma commas_rev_filter: "filter (\<lambda>c. c \<noteq> 44) (commas_rev ds) = filter (\<lambda>c. c \<noteq> 44) ds"
  by (induction ds rule: commas_rev.induct) auto

lemma format_thousands_digits: "filter (\<lambda>c. c \<noteq> 44) (format_thousands n) = str_nat n"
proof -
  have "filter (\<lambda>c. c \<noteq> 44) (str_nat n) = str_nat n"
    using str_nat_no_comma[of n] by (simp add: filter_id_conv) metis
  then show ?thesis
    by (simp add: format_thousands_def rev_filter[symmetric] commas_rev_filter)
qed

lemma format_thousands_value: "nat_of_digits (filter (\<lambda>c. c \<noteq> 44) (format_thousands n)) = n"
  by (simp add: format_thousands_digits str_nat_value)

section \<open>Floating point arithmetic\<close>

























section \<open>The key fields report\<close>






section \<open>The scenario, evaluated\<close>

lemma example_text:
  "example_file =
     [65, 9, 66, 9, 67, 10, 49, 9, 9, 51, 10, 52, 9, 53, 9, 10, 55, 9, 56, 9, 57, 10]"
  by (simp add: example_file_def cp_def)

lemma example_lines:
  "readlines example_file =
     [[65, 9, 66, 9, 67, 10], [49, 9, 9, 51, 10], [52, 9, 53, 9, 10], [55, 9, 56, 9, 57, 10]]"
  by (simp add: example_text readlines_def)

lemma example_reader:
  "csv_reader parse_reset (readlines example_file) =
     ([[[65], [66], [67]], [[49], [], [51]], [[52], [53], []], [[55], [56], [57]]], None)"
  by (simp add: example_lines parse_defs parse_line_def parse_reset_def)

lemma example_rows:
  "DictReader_rows [[65], [66], [67]] [[[49], [], [51]], [[52], [53], []], [[55], [56], [57]]] =
     [\<lparr>items = [([65], Some [49]), ([66], Some []), ([67], Some [51])], rest = []\<rparr>,
      \<lparr>items = [([65], Some [52]), ([66], Some [53]), ([67], Some [])], rest = []\<rparr>,
      \<lparr>items = [([65], Some [55]), ([66], Some [56]), ([67], Some [57])], rest = []\<rparr>]"
  by (simp add: DictReader_rows_def DictReader_row_def)

lemma example_fieldnames: "fieldnames_of example_file = Some [[65], [66], [67]]"
  by (simp add: fieldnames_of_def example_reader)


lemma example_analysis:
  "snd (analyze_voter_file example_file) =
     Inr \<lparr>row_count = 3,
          field_stats =
            [[65] \<mapsto> \<lparr>filled = 3, empties = 0, samples = {[49], [52], [55]}\<rparr>,
             [66] \<mapsto> \<lparr>filled = 2, empties = 1, samples = {[53], [56]}\<rparr>,
             [67] \<mapsto> \<lparr>filled = 2, empties = 1, samples = {[51], [57]}\<rparr>]\<rparr>"
  apply (simp add: analyze_voter_file_def example_reader example_rows process_row_def
      count_value_def get_stat_def default_stat_def sample_size_def strip_def isspace_def)
  apply (auto simp: fun_eq_iff)
  done









section \<open>The claims\<close>

text \<open>
  C1. When the sampling pass of \<open>analyze_voter_file\<close> has run to its end, every field
  named in the header has a filled count and an empty count that add up to the number of
  rows sampled, and that number is the smaller of 100 and the number of data rows of the
  file. The data rows are the rows the reader yields after the header (\<open>data_rows\<close>);
  the counts of a field that was never counted are those of the default entry.
\<close>

theorem filled_plus_empty_is_rows_sampled:
  assumes "snd (analyze_voter_file txt) = Inr s"
    and "fieldnames_of txt = Some fns"
    and "f \<in> set fns"
  shows "filled (get_stat (field_stats s) f) + empties (get_stat (field_stats s) f) = row_count s
       \<and> row_count s = min 100 (length (data_rows txt))"
proof -
  from assms(1) obtain fns' rows ending where
    c: "csv_reader parse_reset (readlines txt) = (fns' # rows, ending)" and
    l: "sample_loop 0 Map.empty (DictReader_rows fns' rows) ending =
          Inr (row_count s, field_stats s)"
    by (rule analyze_Inr)
  from c assms(2) have fns: "fns' = fns" by (simp add: fieldnames_of_def)
  from c have d: "data_rows txt = DictReader_rows fns' rows" by (simp add: data_rows_def)
  have keys: "\<forall>row\<in>set (DictReader_rows fns' rows). distinct (map fst (items row)) \<and> f \<in> set (map fst (items row))"
  proof
    fix row assume "row \<in> set (DictReader_rows fns' rows)"
    then obtain r where "row = DictReader_row fns r" using fns by (auto simp: DictReader_rows_def)
    then show "distinct (map fst (items row)) \<and> f \<in> set (map fst (items row))"
      using assms(3) by (simp add: DictReader_row_distinct DictReader_row_keys del: set_map)
  qed
  have "total (field_stats s) f = row_count s"
    using sample_loop_total[OF l keys] by (simp add: total_empty)
  moreover have "row_count s = min 100 (length (data_rows txt))"
    using sample_loop_count[OF l] by (simp add: sample_size_def d)
  ultimately show ?thesis by (simp add: total_def)
qed

theorem filled_plus_empty_is_rows_sampled_witness:
  "snd (analyze_voter_file example_file) =
     Inr \<lparr>row_count = 3,
          field_stats =
            [[65] \<mapsto> \<lparr>filled = 3, empties = 0, samples = {[49], [52], [55]}\<rparr>,
             [66] \<mapsto> \<lparr>filled = 2, empties = 1, samples = {[53], [56]}\<rparr>,
             [67] \<mapsto> \<lparr>filled = 2, empties = 1, samples = {[51], [57]}\<rparr>]\<rparr>
   \<and> fieldnames_of example_file = Some [[65], [66], [67]]
   \<and> [66] \<in> set [[65], [66], [67::nat]]
   \<and> filled (get_stat
         [[65] \<mapsto> \<lparr>filled = 3, empties = 0, samples = {[49], [52], [55]}\<rparr>,
          [66] \<mapsto> \<lparr>filled = 2, empties = 1, samples = {[53], [56]}\<rparr>,
          [67] \<mapsto> \<lparr>filled = 2, empties = 1, samples = {[51], [57]}\<rparr>] [66])
     + empties (get_stat
         [[65] \<mapsto> \<lparr>filled = 3, empties = 0, samples = {[49], [52], [55]}\<rparr>,
          [66] \<mapsto> \<lparr>filled = 2, empties = 1, samples = {[53], [56]}\<rparr>,
          [67] \<mapsto> \<lparr>filled = 2, empties = 1, samples = {[51], [57]}\<rparr>] [66]) = 3
   \<and> (3::nat) = min 100 (length (data_rows example_file))"
proof -
  have m: "[66] \<in> set [[65], [66], [67::nat]]" by simp
  show ?thesis
    using filled_plus_empty_is_rows_sampled [OF example_analysis example_fieldnames m]
      example_analysis example_fieldnames m
    by simp
qed

text \<open>
  C2. On the scenario's file the analysis counts three rows and gives \<open>A\<close> filled 3 and
  empty 0, \<open>B\<close> filled 2 and empty 1 with the samples 5 and 8, \<open>C\<close> filled 2 and
  empty 1 with the samples 3 and 9; \<open>print_sample_record\<close> with record number 2 prints,
  after its banner, the line of \<open>A\<close> with the value 4 and the line of \<open>B\<close> with the
  value 5 and nothing for \<open>C\<close>; \<open>count_total_rows\<close> returns 3.
\<close>

theorem scenario_results:
  "snd (analyze_voter_file example_file) =
     Inr \<lparr>row_count = 3,
          field_stats =
            [cp ''A'' \<mapsto> \<lparr>filled = 3, empties = 0, samples = {cp ''1'', cp ''4'', cp ''7''}\<rparr>,
             cp ''B'' \<mapsto> \<lparr>filled = 2, empties = 1, samples = {cp ''5'', cp ''8''}\<rparr>,
             cp ''C'' \<mapsto> \<lparr>filled = 2, empties = 1, samples = {cp ''3'', cp ''9''}\<rparr>]\<rparr>
   \<and> print_sample_record example_file 2 =
       (record_banner 2 @
          [cp ''A'' @ replicate 29 SPACE @ cp '': 4'',
           cp ''B'' @ replicate 29 SPACE @ cp '': 5''],
        None)
   \<and> count_total_rows example_file =
       (count_banner @ [cp ''Total voter records: 3''], Inr 3)"
proof -
  have a: "snd (analyze_voter_file example_file) =
     Inr \<lparr>row_count = 3,
          field_stats =
            [cp ''A'' \<mapsto> \<lparr>filled = 3, empties = 0, samples = {cp ''1'', cp ''4'', cp ''7''}\<rparr>,
             cp ''B'' \<mapsto> \<lparr>filled = 2, empties = 1, samples = {cp ''5'', cp ''8''}\<rparr>,
             cp ''C'' \<mapsto> \<lparr>filled = 2, empties = 1, samples = {cp ''3'', cp ''9''}\<rparr>]\<rparr>"
    by (simp add: example_analysis cp_def)
  have p: "print_sample_record example_file 2 =
       (record_banner 2 @
          [cp ''A'' @ replicate 29 SPACE @ cp '': 4'',
           cp ''B'' @ replicate 29 SPACE @ cp '': 5''],
        None)"
    by (simp add: print_sample_record_def example_reader example_rows print_row_def
        format_field_def ljust_def strip_def isspace_def cp_def)
  have c: "count_total_rows example_file =
       (count_banner @ [cp ''Total voter records: 3''], Inr 3)"
    by (simp add: count_total_rows_def example_lines format_thousands_def str_nat_digit cp_def)
  from a p c show ?thesis by simp
qed

text \<open>
  C3. After the sampling pass the sample set of every field is finite with at most three
  entries, and every entry has at most 50 characters and is the first 50 characters of
  the stripped value that one of the sampled rows has for the field. The set holds each
  such string once.
\<close>

theorem samples_capped:
  assumes "snd (analyze_voter_file txt) = Inr s"
  shows "finite (samples (get_stat (field_stats s) f))
       \<and> card (samples (get_stat (field_stats s) f)) \<le> 3
       \<and> (\<forall>e \<in> samples (get_stat (field_stats s) f).
            length e \<le> 50 \<and>
            (\<exists>row \<in> set (take 100 (data_rows txt)). \<exists>v.
               (f, Some v) \<in> set (items row) \<and> e = take 50 (strip v)))"
proof -
  from assms obtain fns rows ending where
    c: "csv_reader parse_reset (readlines txt) = (fns # rows, ending)" and
    l: "sample_loop 0 Map.empty (DictReader_rows fns rows) ending =
          Inr (row_count s, field_stats s)"
    by (rule analyze_Inr)
  from c have d: "data_rows txt = DictReader_rows fns rows" by (simp add: data_rows_def)
  define G where "G = (\<lambda>k. {v. \<exists>row \<in> set (take 100 (data_rows txt)). (k, Some v) \<in> set (items row)})"
  have dist: "\<forall>row\<in>set (DictReader_rows fns rows). distinct (map fst (items row))"
    by (auto simp: DictReader_rows_def DictReader_row_distinct)
  have "samples_ok G (field_stats s)"
  proof (rule sample_loop_samples_ok[OF l samples_ok_empty dist])
    show "0 < sample_size" by (simp add: sample_size_def)
  next
    fix row k v
    assume "row \<in> set (take (sample_size - 0) (DictReader_rows fns rows))" "(k, Some v) \<in> set (items row)"
    then show "v \<in> G k" by (auto simp: G_def d sample_size_def)
  qed
  then have ok: "finite (samples (get_stat (field_stats s) f))"
    "card (samples (get_stat (field_stats s) f)) \<le> 3"
    "samples (get_stat (field_stats s) f) \<subseteq> (\<lambda>v. take 50 (strip v)) ` G f"
    by (auto simp: samples_ok_def)
  have "\<forall>e \<in> samples (get_stat (field_stats s) f).
            length e \<le> 50 \<and>
            (\<exists>row \<in> set (take 100 (data_rows txt)). \<exists>v.
               (f, Some v) \<in> set (items row) \<and> e = take 50 (strip v))"
  proof
    fix e assume "e \<in> samples (get_stat (field_stats s) f)"
    with ok(3) obtain v where "v \<in> G f" "e = take 50 (strip v)" by auto
    then show "length e \<le> 50 \<and>
            (\<exists>row \<in> set (take 100 (data_rows txt)). \<exists>v.
               (f, Some v) \<in> set (items row) \<and> e = take 50 (strip v))"
      by (auto simp: G_def)
  qed
  with ok(1,2) show ?thesis by simp
qed

theorem samples_capped_witness:
  "snd (analyze_voter_file example_file) =
     Inr \<lparr>row_count = 3,
          field_stats =
            [[65] \<mapsto> \<lparr>filled = 3, empties = 0, samples = {[49], [52], [55]}\<rparr>,
             [66] \<mapsto> \<lparr>filled = 2, empties = 1, samples = {[53], [56]}\<rparr>,
             [67] \<mapsto> \<lparr>filled = 2, empties = 1, samples = {[51], [57]}\<rparr>]\<rparr>
   \<and> card (samples (get_stat
         [[65] \<mapsto> \<lparr>filled = 3, empties = 0, samples = {[49], [52], [55]}\<rparr>,
          [66] \<mapsto> \<lparr>filled = 2, empties = 1, samples = {[53], [56]}\<rparr>,
          [67] \<mapsto> \<lparr>filled = 2, empties = 1, samples = {[51], [57]}\<rparr>] [65])) \<le> 3"
  using samples_capped [OF example_analysis, of "[65]"] example_analysis
  by simp




text \<open>
  C5. For a text made of a header line and \<open>D\<close> data lines, every line ended by
  \<open>\n\<close> (or every line by \<open>\r\n\<close>), \<open>count_total_rows\<close> returns \<open>D\<close> and prints,
  after its banner, \<open>Total voter records:\<close> and \<open>D\<close> with a comma before every
  group of three digits; the same holds when the last data line is not empty and has no
  line end. The digits printed, without the commas, are the decimal digits of \<open>D\<close>.
\<close>

theorem count_total_rows_counts_data_lines:
  assumes "eol = [NL] \<or> eol = [CR, NL]"
    and "\<forall>l\<in>set (header # ds). NL \<notin> set l \<and> CR \<notin> set l"
  shows "count_total_rows (concat (map (\<lambda>l. l @ eol) (header # ds))) =
           (count_banner @ [cp ''Total voter records: '' @ format_thousands (length ds)],
            Inr (length ds))
       \<and> (ds \<noteq> [] \<and> last ds \<noteq> [] \<longrightarrow>
          count_total_rows (concat (map (\<lambda>l. l @ eol) (header # butlast ds)) @ last ds) =
            (count_banner @ [cp ''Total voter records: '' @ format_thousands (length ds)],
             Inr (length ds)))
       \<and> nat_of_digits (filter (\<lambda>c. c \<noteq> 44) (format_thousands (length ds))) = length ds"
proof -
  have r0: "readlines [] = []" by (simp add: readlines_def)
  have a: "readlines (concat (map (\<lambda>l. l @ eol) (header # ds))) = map (\<lambda>l. l @ [NL]) (header # ds)"
    using readlines_lines[OF assms, of "[]"] by (simp add: r0)
  have b: "readlines (concat (map (\<lambda>l. l @ eol) (header # butlast ds)) @ last ds) =
             map (\<lambda>l. l @ [NL]) (header # butlast ds) @ [last ds]"
    if "ds \<noteq> []" "last ds \<noteq> []"
  proof -
    have 1: "\<forall>l\<in>set (header # butlast ds). NL \<notin> set l \<and> CR \<notin> set l"
      using assms(2) by (auto dest: in_set_butlastD)
    have 2: "NL \<notin> set (last ds) \<and> CR \<notin> set (last ds)" using assms(2) that(1) by simp
    show ?thesis
      using readlines_lines[OF assms(1) 1, of "last ds"] 2 that(2) by (simp add: readlines_last)
  qed
  have c: "ds \<noteq> [] \<Longrightarrow> Suc (length (butlast ds)) = length ds" by simp
  show ?thesis
    using a b c by (auto simp: count_total_rows_def format_thousands_value simp del: length_butlast)
qed

theorem count_total_rows_counts_data_lines_witness:
  "count_total_rows (concat (map (\<lambda>l. l @ [NL]) [[65, 9, 66], [49, 9, 50], [], [51]])) =
     (count_banner @ [cp ''Total voter records: '' @ format_thousands 3], Inr 3)"
proof -
  have h1: "[NL] = [NL] \<or> [NL] = [CR, NL]" by simp
  have h2: "\<forall>l\<in>set ([65, 9, 66] # [[49, 9, 50], [], [51]]). NL \<notin> set l \<and> CR \<notin> set l" by simp
  from count_total_rows_counts_data_lines [OF h1 h2] show ?thesis
    by (simp add: numeral_3_eq_3)
qed







text \<open>
  C8. When the first line of the file is made of \<open>N\<close> names with a tab between them,
  each name without a tab or a line end in it, not beginning with the quote character and
  no longer than a field may be,
  the field names read are these names and the first thing the analysis prints of its
  report is \<open>Total Fields: N\<close>, whatever follows the line. The line may end with
  \<open>\n\<close> or \<open>\r\n\<close>, or be the whole file. A single empty name is no header: that
  line is blank.
\<close>

theorem total_fields_is_header_width:
  assumes "names \<noteq> [[]]"
    and "\<forall>n\<in>set names. TAB \<notin> set n \<and> NL \<notin> set n \<and> CR \<notin> set n \<and>
                        (n \<noteq> [] \<longrightarrow> hd n \<noteq> QUOTE) \<and> length n \<le> field_limit"
    and "eol = [NL] \<or> eol = [CR, NL]"
  shows "fieldnames_of (join_tab names @ eol @ following) = Some names
       \<and> (\<exists>out. fst (analyze_voter_file (join_tab names @ eol @ following)) =
                   Total_Fields (length names) # out)
       \<and> (names \<noteq> [] \<longrightarrow>
            fieldnames_of (join_tab names) = Some names
          \<and> (\<exists>out. fst (analyze_voter_file (join_tab names)) =
                      Total_Fields (length names) # out))"
proof -
  from assms(2) have ok: "\<forall>n\<in>set names. name_ok n \<and> length n \<le> field_limit"
    by (simp add: name_ok_def)
  note nn = join_no_newline[OF ok]
  have r1: "readlines (join_tab names @ eol @ following) = (join_tab names @ [NL]) # readlines following"
    using readlines_line[OF assms(3), of "join_tab names" following] nn by simp
  have p1: "parse_line parse_reset (join_tab names @ [NL]) =
           Inr \<lparr>state = START_RECORD, field_buf = [], row_fields = names\<rparr>"
    by (rule parse_header_line[OF assms(1) ok]) simp_all
  have c1: "fst (csv_reader parse_reset (readlines (join_tab names @ eol @ following))) =
          names # fst (csv_reader parse_reset (readlines following))"
    unfolding r1 using csv_reader_record[OF p1, of "readlines following"] by simp
  have a: "fieldnames_of (join_tab names @ eol @ following) = Some names"
    by (simp add: fieldnames_of_def c1)
  have b: "\<exists>out. fst (analyze_voter_file (join_tab names @ eol @ following)) =
                   Total_Fields (length names) # out"
    using analyze_head[OF c1] .
  have c: "fieldnames_of (join_tab names) = Some names
          \<and> (\<exists>out. fst (analyze_voter_file (join_tab names)) =
                      Total_Fields (length names) # out)" if "names \<noteq> []"
  proof -
    from that assms(1) have ne: "join_tab names \<noteq> []" by (simp add: join_empty)
    then have r2: "readlines (join_tab names) = [join_tab names]"
      using readlines_last[of "join_tab names"] nn by simp
    have p2: "parse_line parse_reset (join_tab names) =
           Inr \<lparr>state = START_RECORD, field_buf = [], row_fields = names\<rparr>"
      using parse_header_line[OF assms(1) ok, of "[]"] ne by simp
    have c2: "fst (csv_reader parse_reset (readlines (join_tab names))) = [names]"
      unfolding r2 using csv_reader_record[OF p2, of "[]"] by (simp add: parse_reset_def)
    show ?thesis using analyze_head[OF c2] by (simp add: fieldnames_of_def c2)
  qed
  from a b c show ?thesis by blast
qed

theorem total_fields_is_header_width_witness:
  "fieldnames_of example_file = Some [[65], [66], [67]]
   \<and> (\<exists>out. fst (analyze_voter_file example_file) = Total_Fields 3 # out)"
proof -
  have h1: "[[65], [66], [67::nat]] \<noteq> [[]]" by simp
  have h2: "\<forall>n\<in>set [[65], [66], [67::nat]].
      TAB \<notin> set n \<and> NL \<notin> set n \<and> CR \<notin> set n \<and> (n \<noteq> [] \<longrightarrow> hd n \<noteq> QUOTE) \<and>
      length n \<le> field_limit" by (simp add: field_limit_def)
  have h3: "[NL] = [NL] \<or> [NL] = [CR, NL]" by simp
  have e: "example_file = join_tab [[65], [66], [67]] @ [NL] @
      [49, 9, 9, 51, 10, 52, 9, 53, 9, 10, 55, 9, 56, 9, 57, 10]"
    by (simp add: example_text)
  from total_fields_is_header_width [OF h1 h2 h3,
      of "[49, 9, 9, 51, 10, 52, 9, 53, 9, 10, 55, 9, 56, 9, 57, 10]"]
  show ?thesis unfolding e by (simp add: numeral_3_eq_3)
qed

text \<open>
  C9. On a file of zero lines \<open>analyze_voter_file\<close> prints nothing of its report and
  raises \<open>TypeError\<close>: the field names are \<open>None\<close> and have no length.
\<close>

theorem empty_file_raises_TypeError:
  "analyze_voter_file [] = ([], Inl TypeError)"
  by (simp add: analyze_voter_file_def readlines_def parse_reset_def)

text \<open>
  C10. A row with fewer values than the header has fields is processed without an
  exception; each field beyond the row's values has the value \<open>None\<close> and is counted
  as empty, its other statistics unchanged; and every field of the header is counted
  exactly once for the row, as filled or as empty.
\<close>

theorem short_row_fields_counted_empty:
  assumes "length r < length fns"
    and "k \<in> set (drop (length r) fns)"
  shows "\<exists>fs'. process_row (DictReader_row fns r) fs = Inr fs'
       \<and> map_of (items (DictReader_row fns r)) k = Some None
       \<and> get_stat fs' k = (get_stat fs k)\<lparr>empties := empties (get_stat fs k) + 1\<rparr>
       \<and> (\<forall>f \<in> set fns. filled (get_stat fs' f) + empties (get_stat fs' f)
                          = Suc (filled (get_stat fs f) + empties (get_stat fs f)))"
proof -
  let ?row = "DictReader_row fns r"
  let ?fs' = "count_items (items ?row) fs"
  have d: "distinct (map fst (items ?row))" by (rule DictReader_row_distinct)
  from assms(1) have "rest ?row = []" by (simp add: DictReader_row_rest)
  then have p: "process_row ?row fs = Inr ?fs'" by (simp add: process_row_def)
  have m: "map_of (items ?row) k = Some None" using assms(2) by (rule DictReader_row_restval)
  have g: "get_stat ?fs' k = (get_stat fs k)\<lparr>empties := empties (get_stat fs k) + 1\<rparr>"
    by (simp add: count_items_get_stat[OF d] m bump_None)
  have t: "\<forall>f \<in> set fns. filled (get_stat ?fs' f) + empties (get_stat ?fs' f)
                          = Suc (filled (get_stat fs f) + empties (get_stat fs f))"
  proof
    fix f assume "f \<in> set fns"
    then have "f \<in> set (map fst (items ?row))" by (simp only: DictReader_row_keys)
    from count_items_total[OF d this, of fs]
    show "filled (get_stat ?fs' f) + empties (get_stat ?fs' f)
                          = Suc (filled (get_stat fs f) + empties (get_stat fs f))"
      by (simp add: total_def)
  qed
  from p m g t show ?thesis by blast
qed

theorem short_row_fields_counted_empty_witness:
  "length [[49::nat]] < length [[65], [66], [67::nat]]
   \<and> [67] \<in> set (drop (length [[49::nat]]) [[65], [66], [67::nat]])
   \<and> (\<exists>fs'. process_row (DictReader_row [[65], [66], [67]] [[49]]) Map.empty = Inr fs'
       \<and> map_of (items (DictReader_row [[65], [66], [67]] [[49]])) [67] = Some None
       \<and> get_stat fs' [67] = \<lparr>filled = 0, empties = 1, samples = {}\<rparr>)"
proof -
  have h1: "length [[49::nat]] < length [[65], [66], [67::nat]]" by simp
  have h2: "[67] \<in> set (drop (length [[49::nat]]) [[65], [66], [67::nat]])" by simp
  from short_row_fields_counted_empty [OF h1 h2, of Map.empty] h1 h2
  show ?thesis by (auto simp: get_stat_def default_stat_def)
qed

end
